theory Spec2Isabelle
  imports Main
begin

section \<open>Python strings\<close>

text \<open>
  A Python \<open>str\<close> is a sequence of Unicode code points, and \<open>len\<close>, slicing,
  \<open>endswith\<close> and \<open>replace\<close> all count code points. The analyser's source file
  holds literals with code points far above 255 (U+221A, U+2264, ...), so a string is
  modelled as a list of code points, each a natural number. \<open>str\<close> reads an ASCII
  literal of the source.
\<close>

type_synonym ustr = "nat list"

definition str :: "string \<Rightarrow> ustr" where
  "str s = map of_char s"

text \<open>\<open>s.startswith(p)\<close> and \<open>s.endswith(p)\<close>.\<close>

definition startswith :: "'a list \<Rightarrow> 'a list \<Rightarrow> bool" where
  "startswith s p = (take (length p) s = p)"

definition endswith :: "'a list \<Rightarrow> 'a list \<Rightarrow> bool" where
  "endswith s p = (length p \<le> length s \<and> drop (length s - length p) s = p)"

text \<open>
  \<open>s[:-n]\<close> for a positive literal \<open>n\<close>: all but the last \<open>n\<close> items, and the
  empty string when \<open>s\<close> has at most \<open>n\<close> items (a slice never raises).
\<close>

definition butlast_n :: "nat \<Rightarrow> 'a list \<Rightarrow> 'a list" where
  "butlast_n n s = take (length s - n) s"

text \<open>
  \<open>s.replace(old, new)\<close>: every occurrence of \<open>old\<close>, found from the left and not
  overlapping, is replaced by \<open>new\<close>. For an empty \<open>old\<close> Python puts \<open>new\<close> before
  every item and at the end.
\<close>

function replace :: "'a list \<Rightarrow> 'a list \<Rightarrow> 'a list \<Rightarrow> 'a list" where
  "replace old new [] = (if old = [] then new else [])"
| "replace old new (c # cs) =
     (if old = [] then new @ c # replace old new cs
      else if startswith (c # cs) old
        then new @ replace old new (drop (length old) (c # cs))
        else c # replace old new cs)"
  by pat_completeness auto
termination
  by (relation "measure (\<lambda>(old, new, s). length s)") auto

text \<open>
  \<open>s.strip()\<close> removes leading and trailing whitespace. \<open>is_space\<close> lists the code
  points for which CPython's \<open>str.isspace\<close> holds.
\<close>

definition is_space :: "nat \<Rightarrow> bool" where
  "is_space c =
     ((0x09 \<le> c \<and> c \<le> 0x0D) \<or> (0x1C \<le> c \<and> c \<le> 0x20) \<or> c = 0x85 \<or> c = 0xA0
      \<or> c = 0x1680 \<or> (0x2000 \<le> c \<and> c \<le> 0x200A) \<or> c = 0x2028 \<or> c = 0x2029
      \<or> c = 0x202F \<or> c = 0x205F \<or> c = 0x3000)"

definition lstrip :: "ustr \<Rightarrow> ustr" where
  "lstrip s = dropWhile is_space s"

definition rstrip :: "ustr \<Rightarrow> ustr" where
  "rstrip s = rev (dropWhile is_space (rev s))"

definition strip :: "ustr \<Rightarrow> ustr" where
  "strip s = rstrip (lstrip s)"

text \<open>
  \<open>s.lower()\<close>. The case mapping is Python's on Basic Latin and Latin-1 Supplement
  (U+0000 to U+00FF), the blocks that hold every letter of Italian: \<open>A\<close> to \<open>Z\<close> and
  U+00C0 to U+00DE without the multiplication sign U+00D7 move up by 32. Python takes
  the mapping of the code points from U+0100 on from the Unicode tables of the
  interpreter; here they are left as they are, so on cased letters outside Latin-1 the
  model is only an approximation.
\<close>

definition lower_cp :: "nat \<Rightarrow> nat" where
  "lower_cp c =
     (if 0x41 \<le> c \<and> c \<le> 0x5A then c + 32
      else if 0xC0 \<le> c \<and> c \<le> 0xDE \<and> c \<noteq> 0xD7 then c + 32
      else c)"

definition lower :: "ustr \<Rightarrow> ustr" where
  "lower s = map lower_cp s"

section \<open>Regular-form generators\<close>

text \<open>
  \<open>get_verb_root(infinitive)\<close> returns the pair \<open>(root, group)\<close>; the group is one
  of the strings \<open>"ARE"\<close>, \<open>"ERE"\<close>, \<open>"IRE"\<close>, \<open>"OTHER"\<close>.
\<close>

definition get_verb_root :: "ustr \<Rightarrow> ustr \<times> ustr" where
  "get_verb_root infinitive =
     (if endswith infinitive (str ''are'') then (butlast_n 3 infinitive, str ''ARE'')
      else if endswith infinitive (str ''ere'') then (butlast_n 3 infinitive, str ''ERE'')
      else if endswith infinitive (str ''ire'') then (butlast_n 3 infinitive, str ''IRE'')
      else (infinitive, str ''OTHER''))"

definition get_regular_presente :: "ustr \<Rightarrow> ustr \<Rightarrow> ustr list" where
  "get_regular_presente root grp =
     (if grp = str ''ARE''
        then [root @ str ''o'', root @ str ''i'', root @ str ''a'',
              root @ str ''iamo'', root @ str ''ate'', root @ str ''ano'']
      else if grp = str ''ERE''
        then [root @ str ''o'', root @ str ''i'', root @ str ''e'',
              root @ str ''iamo'', root @ str ''ete'', root @ str ''ono'']
      else if grp = str ''IRE''
        then [root @ str ''o'', root @ str ''i'', root @ str ''e'',
              root @ str ''iamo'', root @ str ''ite'', root @ str ''ono'']
      else [])"

definition get_regular_imperfetto :: "ustr \<Rightarrow> ustr \<Rightarrow> ustr list" where
  "get_regular_imperfetto root grp =
     (if grp = str ''ARE''
        then [root @ str ''avo'', root @ str ''avi'', root @ str ''ava'',
              root @ str ''avamo'', root @ str ''avate'', root @ str ''avano'']
      else if grp = str ''ERE''
        then [root @ str ''evo'', root @ str ''evi'', root @ str ''eva'',
              root @ str ''evamo'', root @ str ''evate'', root @ str ''evano'']
      else if grp = str ''IRE''
        then [root @ str ''ivo'', root @ str ''ivi'', root @ str ''iva'',
              root @ str ''ivamo'', root @ str ''ivate'', root @ str ''ivano'']
      else [])"

text \<open>
  The non-ASCII literals of the source file. Each of them is two code points: the
  square-root sign U+221A followed by a second symbol. They are what the UTF-8 bytes of
  an accented vowel look like when read as Mac OS Roman (\<open>C3 B2\<close>, the letter U+00F2,
  reads as U+221A U+2264), and the source file stores them in that form.
\<close>

definition lit_a_grave :: ustr where "lit_a_grave = [0x221A, 0x2020]"
definition lit_e_grave :: ustr where "lit_e_grave = [0x221A, 0xAE]"
definition lit_e_acute :: ustr where "lit_e_acute = [0x221A, 0xA9]"
definition lit_i_grave :: ustr where "lit_i_grave = [0x221A, 0xA8]"
definition lit_o_grave :: ustr where "lit_o_grave = [0x221A, 0x2264]"
definition lit_u_grave :: ustr where "lit_u_grave = [0x221A, 0x3C0]"

definition get_regular_futuro :: "ustr \<Rightarrow> ustr list" where
  "get_regular_futuro infinitive =
     (let stem = (if endswith infinitive (str ''are'')
                  then butlast_n 3 infinitive @ str ''er''
                  else butlast_n 1 infinitive)
      in [stem @ lit_o_grave, stem @ str ''ai'', stem @ lit_a_grave,
          stem @ str ''emo'', stem @ str ''ete'', stem @ str ''anno''])"

definition get_regular_passato_remoto :: "ustr \<Rightarrow> ustr \<Rightarrow> ustr list" where
  "get_regular_passato_remoto root grp =
     (if grp = str ''ARE''
        then [root @ str ''ai'', root @ str ''asti'', root @ lit_o_grave,
              root @ str ''ammo'', root @ str ''aste'', root @ str ''arono'']
      else if grp = str ''ERE''
        then [root @ str ''ei'', root @ str ''esti'', root @ lit_e_acute,
              root @ str ''emmo'', root @ str ''este'', root @ str ''erono'']
      else if grp = str ''IRE''
        then [root @ str ''ii'', root @ str ''isti'', root @ lit_i_grave,
              root @ str ''immo'', root @ str ''iste'', root @ str ''irono'']
      else [])"

section \<open>Normalizer\<close>

text \<open>
  The dictionary \<open>replacements\<close> is walked in insertion order, so it is an
  association list; each pair is applied to the running result.
\<close>

definition replacements :: "(ustr \<times> ustr) list" where
  "replacements =
     [(lit_a_grave, str ''a''), (lit_e_grave, str ''e''), (lit_e_acute, str ''e''),
      (lit_i_grave, str ''i''), (lit_o_grave, str ''o''), (lit_u_grave, str ''u'')]"

definition normalize_conjugation :: "ustr \<Rightarrow> ustr" where
  "normalize_conjugation cnj =
     foldl (\<lambda>result (old, new). replace old new result) (strip (lower cnj)) replacements"

section \<open>Mismatch reporter\<close>

text \<open>
  What Python raises on a list index out of range and on a missing dictionary key is a
  value of the model: \<open>Inl\<close> carries the exception, \<open>Inr\<close> the result.
\<close>

datatype error = IndexError | KeyError

definition getitem_list :: "'a list \<Rightarrow> nat \<Rightarrow> error + 'a" where
  "getitem_list xs i = (if i < length xs then Inr (xs ! i) else Inl IndexError)"

definition getitem_dict :: "('k \<rightharpoonup> 'v) \<Rightarrow> 'k \<Rightarrow> error + 'v" where
  "getitem_dict d k = (case d k of None \<Rightarrow> Inl KeyError | Some v \<Rightarrow> Inr v)"

text \<open>
  One entry of the report, the dictionary
  \<open>{"mismatches": ..., "actual": ..., "expected": ...}\<close>.
\<close>

record entry =
  mismatches :: int
  actual :: "ustr list"
  expected :: "ustr list"

text \<open>
  \<open>sum(1 for i in range(6) if normalize_conjugation(actual[i]) !=
  normalize_conjugation(regular[i]))\<close>, as a recursion over the list of indices. The
  generator is consumed from the left, so the first index that raises decides the error.
\<close>

fun count_mismatches :: "ustr list \<Rightarrow> ustr list \<Rightarrow> nat list \<Rightarrow> error + int" where
  "count_mismatches acts regular [] = Inr 0"
| "count_mismatches acts regular (i # is) =
     (case getitem_list acts i of
        Inl e \<Rightarrow> Inl e
      | Inr a \<Rightarrow>
          (case getitem_list regular i of
             Inl e \<Rightarrow> Inl e
           | Inr r \<Rightarrow>
               (case count_mismatches acts regular is of
                  Inl e \<Rightarrow> Inl e
                | Inr n \<Rightarrow>
                    Inr ((if normalize_conjugation a \<noteq> normalize_conjugation r
                          then 1 else 0) + n))))"

text \<open>
  \<open>compare_with_regular\<close> runs the same block four times, once per tense, each time
  with another key and another generator. \<open>check_tense\<close> is that block: it takes the
  key, the generated regular forms and the report built so far, and returns the report
  after the block.
\<close>

definition check_tense ::
  "ustr \<Rightarrow> ustr list \<Rightarrow> (ustr \<rightharpoonup> ustr list) \<Rightarrow> (ustr \<rightharpoonup> entry)
     \<Rightarrow> error + (ustr \<rightharpoonup> entry)" where
  "check_tense tense regular actual_conjugations irregularities =
     (if actual_conjugations tense \<noteq> None then
        (case getitem_dict actual_conjugations tense of
           Inl e \<Rightarrow> Inl e
         | Inr acts \<Rightarrow>
             if length acts \<ge> 6 \<and> length regular = 6 then
               (case count_mismatches acts regular [0..<6] of
                  Inl e \<Rightarrow> Inl e
                | Inr n \<Rightarrow>
                    if n > 0
                    then Inr (irregularities(tense \<mapsto>
                           \<lparr>mismatches = n, actual = acts, expected = regular\<rparr>))
                    else Inr irregularities)
             else Inr irregularities)
      else Inr irregularities)"

definition compare_with_regular ::
  "ustr \<Rightarrow> (ustr \<rightharpoonup> ustr list) \<Rightarrow> error + (ustr \<rightharpoonup> entry)" where
  "compare_with_regular infinitive actual_conjugations =
     (case get_verb_root infinitive of (root, grp) \<Rightarrow>
        (case check_tense (str ''presente'') (get_regular_presente root grp)
                actual_conjugations Map.empty of
           Inl e \<Rightarrow> Inl e
         | Inr irr1 \<Rightarrow>
        (case check_tense (str ''imperfetto'') (get_regular_imperfetto root grp)
                actual_conjugations irr1 of
           Inl e \<Rightarrow> Inl e
         | Inr irr2 \<Rightarrow>
        (case check_tense (str ''futuro'') (get_regular_futuro infinitive)
                actual_conjugations irr2 of
           Inl e \<Rightarrow> Inl e
         | Inr irr3 \<Rightarrow>
        check_tense (str ''passato_remoto'') (get_regular_passato_remoto root grp)
                actual_conjugations irr3))))"

section \<open>Notions used to state the properties\<close>

text \<open>
  The canonical sequence of a tense for an infinitive: what the block of that tense in
  \<open>compare_with_regular\<close> binds to \<open>regular\<close>. A name that is not one of the four
  tenses has no canonical sequence.
\<close>

definition canonical :: "ustr \<Rightarrow> ustr \<Rightarrow> ustr list" where
  "canonical infinitive tense =
     (if tense = str ''presente''
        then get_regular_presente (fst (get_verb_root infinitive)) (snd (get_verb_root infinitive))
      else if tense = str ''imperfetto''
        then get_regular_imperfetto (fst (get_verb_root infinitive)) (snd (get_verb_root infinitive))
      else if tense = str ''futuro''
        then get_regular_futuro infinitive
      else if tense = str ''passato_remoto''
        then get_regular_passato_remoto (fst (get_verb_root infinitive)) (snd (get_verb_root infinitive))
      else [])"

text \<open>
  The positions among 0..5 at which two sequences differ after normalization. It reads
  no position from 6 on.
\<close>

definition differing :: "ustr list \<Rightarrow> ustr list \<Rightarrow> nat list" where
  "differing acts regular =
     filter (\<lambda>i. normalize_conjugation (acts ! i) \<noteq> normalize_conjugation (regular ! i)) [0..<6]"

text \<open>The four tense names that \<open>compare_with_regular\<close> looks up.\<close>

definition tenses :: "ustr list" where
  "tenses = [str ''presente'', str ''imperfetto'', str ''futuro'', str ''passato_remoto'']"

text \<open>
  The entry that the comparison of one tense yields, stated without the control flow
  of the source: an entry exists when the tense is observed with at least six forms,
  six regular forms were generated and at least one position differs.
\<close>

definition tense_entry :: "ustr list \<Rightarrow> (ustr \<rightharpoonup> ustr list) \<Rightarrow> ustr \<Rightarrow> entry option" where
  "tense_entry regular actual_conjugations tense =
     (case actual_conjugations tense of
        None \<Rightarrow> None
      | Some acts \<Rightarrow>
          if 6 \<le> length acts \<and> length regular = 6 \<and> differing acts regular \<noteq> []
          then Some \<lparr>mismatches = int (length (differing acts regular)),
                     actual = acts, expected = regular\<rparr>
          else None)"

text \<open>
  The normalizer with the case conversion as a parameter. Python takes \<open>lower\<close>
  from the Unicode tables of the interpreter, which are no part of the source;
  \<open>normalize_with\<close> is \<open>normalize_conjugation\<close> with \<open>lw\<close> in the place of
  \<open>lower\<close>, so that a property can be shown for every case conversion.
\<close>

definition normalize_with :: "(ustr \<Rightarrow> ustr) \<Rightarrow> ustr \<Rightarrow> ustr" where
  "normalize_with lw cnj =
     foldl (\<lambda>result (old, new). replace old new result) (strip (lw cnj)) replacements"

text \<open>\<open>occurs old s\<close>: the string \<open>old\<close> is found somewhere in \<open>s\<close>.\<close>

fun occurs :: "'a list \<Rightarrow> 'a list \<Rightarrow> bool" where
  "occurs old [] = (old = [])"
| "occurs old (c # cs) = (startswith (c # cs) old \<or> occurs old cs)"

text \<open>A string is trimmed when it neither starts nor ends with whitespace.\<close>

definition trimmed :: "ustr \<Rightarrow> bool" where
  "trimmed s = (s = [] \<or> (\<not> is_space (hd s) \<and> \<not> is_space (last s)))"

text \<open>
  Example data: the observed presente of \<open>andare\<close> and its regular presente.
\<close>

definition andare_observed :: "ustr list" where
  "andare_observed = map str [''vado'', ''vai'', ''va'', ''andiamo'', ''andate'', ''vanno'']"

definition andare_regular :: "ustr list" where
  "andare_regular = map str [''ando'', ''andi'', ''anda'', ''andiamo'', ''andate'', ''andano'']"

section \<open>Evaluation\<close>

lemmas lit_defs = lit_a_grave_def lit_e_grave_def lit_e_acute_def lit_i_grave_def
  lit_o_grave_def lit_u_grave_def

lemmas normalize_defs = normalize_conjugation_def replacements_def strip_def lstrip_def
  rstrip_def lower_def lower_cp_def is_space_def startswith_def lit_defs

section \<open>Suffixes and slices\<close>

lemma endswith_iff: "endswith s p \<longleftrightarrow> (\<exists>r. s = r @ p)"
proof
  assume "endswith s p"
  then have "s = take (length s - length p) s @ p"
    by (metis append_take_drop_id endswith_def)
  then show "\<exists>r. s = r @ p" ..
next
  assume "\<exists>r. s = r @ p"
  then show "endswith s p" by (auto simp: endswith_def)
qed

section \<open>Root and group\<close>

text \<open>
  C6. An infinitive \<open>r + "are"\<close> has root \<open>r\<close> and group \<open>ARE\<close>, so the root followed
  by the matched suffix is the infinitive again; likewise for \<open>"ere"\<close> and \<open>"ire"\<close>.
  An infinitive that ends in none of the three suffixes is its own root and has group
  \<open>OTHER\<close>.
\<close>

theorem get_verb_root_spec:
  "get_verb_root (r @ str ''are'') = (r, str ''ARE'')
   \<and> get_verb_root (r @ str ''ere'') = (r, str ''ERE'')
   \<and> get_verb_root (r @ str ''ire'') = (r, str ''IRE'')
   \<and> ((\<forall>r. infinitive \<noteq> r @ str ''are'' \<and> infinitive \<noteq> r @ str ''ere''
             \<and> infinitive \<noteq> r @ str ''ire'')
        \<longrightarrow> get_verb_root infinitive = (infinitive, str ''OTHER''))"
proof (intro conjI impI)
  show "get_verb_root (r @ str ''are'') = (r, str ''ARE'')"
    by (simp add: get_verb_root_def endswith_def butlast_n_def str_def)
  show "get_verb_root (r @ str ''ere'') = (r, str ''ERE'')"
    by (simp add: get_verb_root_def endswith_def butlast_n_def str_def)
  show "get_verb_root (r @ str ''ire'') = (r, str ''IRE'')"
    by (simp add: get_verb_root_def endswith_def butlast_n_def str_def)
next
  assume "\<forall>r. infinitive \<noteq> r @ str ''are'' \<and> infinitive \<noteq> r @ str ''ere''
    \<and> infinitive \<noteq> r @ str ''ire''"
  then have "\<not> endswith infinitive (str ''are'')" "\<not> endswith infinitive (str ''ere'')"
    "\<not> endswith infinitive (str ''ire'')"
    by (simp_all add: endswith_iff)
  then show "get_verb_root infinitive = (infinitive, str ''OTHER'')"
    by (simp add: get_verb_root_def)
qed

theorem get_verb_root_spec_witness:
  "get_verb_root (str ''parl'' @ str ''are'') = (str ''parl'', str ''ARE'')
   \<and> get_verb_root (str ''porre'') = (str ''porre'', str ''OTHER'')"
proof -
  have "\<not> endswith (str ''porre'') (str ''are'')" "\<not> endswith (str ''porre'') (str ''ere'')"
    "\<not> endswith (str ''porre'') (str ''ire'')"
    by (simp_all add: endswith_def str_def)
  then have h: "\<forall>r. str ''porre'' \<noteq> r @ str ''are'' \<and> str ''porre'' \<noteq> r @ str ''ere''
      \<and> str ''porre'' \<noteq> r @ str ''ire''"
    by (simp add: endswith_iff)
  from get_verb_root_spec [of "str ''parl''" "str ''porre''"] h show ?thesis by blast
qed

section \<open>Regular forms\<close>

text \<open>
  C4. For every root and each of the groups \<open>ARE\<close>, \<open>ERE\<close>, \<open>IRE\<close>, the presente and
  the imperfetto are the root followed by the six fixed endings of the group; each has
  exactly six forms, none of them empty, and every form starts with the root.
\<close>

theorem presente_imperfetto_forms:
  "get_regular_presente root (str ''ARE'')
     = map (\<lambda>ending. root @ str ending) [''o'', ''i'', ''a'', ''iamo'', ''ate'', ''ano'']
   \<and> get_regular_presente root (str ''ERE'')
     = map (\<lambda>ending. root @ str ending) [''o'', ''i'', ''e'', ''iamo'', ''ete'', ''ono'']
   \<and> get_regular_presente root (str ''IRE'')
     = map (\<lambda>ending. root @ str ending) [''o'', ''i'', ''e'', ''iamo'', ''ite'', ''ono'']
   \<and> get_regular_imperfetto root (str ''ARE'')
     = map (\<lambda>ending. root @ str ending) [''avo'', ''avi'', ''ava'', ''avamo'', ''avate'', ''avano'']
   \<and> get_regular_imperfetto root (str ''ERE'')
     = map (\<lambda>ending. root @ str ending) [''evo'', ''evi'', ''eva'', ''evamo'', ''evate'', ''evano'']
   \<and> get_regular_imperfetto root (str ''IRE'')
     = map (\<lambda>ending. root @ str ending) [''ivo'', ''ivi'', ''iva'', ''ivamo'', ''ivate'', ''ivano'']
   \<and> (\<forall>grp \<in> {str ''ARE'', str ''ERE'', str ''IRE''}.
         length (get_regular_presente root grp) = 6
         \<and> length (get_regular_imperfetto root grp) = 6
         \<and> (\<forall>form \<in> set (get_regular_presente root grp) \<union> set (get_regular_imperfetto root grp).
               form \<noteq> [] \<and> (\<exists>ending. form = root @ ending)))"
proof -
  have ne: "str ''ARE'' \<noteq> str ''ERE''" "str ''ARE'' \<noteq> str ''IRE''" "str ''ERE'' \<noteq> str ''IRE''"
    "str ''ERE'' \<noteq> str ''ARE''" "str ''IRE'' \<noteq> str ''ARE''" "str ''IRE'' \<noteq> str ''ERE''"
    by (simp_all add: str_def)
  have nonempty: "\<And>c cs. str (c # cs) \<noteq> []"
    by (simp add: str_def)
  show ?thesis
    by (simp add: get_regular_presente_def get_regular_imperfetto_def ne nonempty)
qed

theorem presente_imperfetto_forms_witness:
  "str ''ERE'' \<in> {str ''ARE'', str ''ERE'', str ''IRE''}
   \<and> length (get_regular_presente (str ''cred'') (str ''ERE'')) = 6
   \<and> get_regular_imperfetto (str ''cred'') (str ''ERE'') ! 3 = str ''credevamo''
   \<and> str ''credevamo'' \<in> set (get_regular_imperfetto (str ''cred'') (str ''ERE''))
   \<and> (\<exists>ending. str ''credevamo'' = str ''cred'' @ ending)"
proof -
  have m: "str ''ERE'' \<in> {str ''ARE'', str ''ERE'', str ''IRE''}" by simp
  have e: "get_regular_imperfetto (str ''cred'') (str ''ERE'') ! 3 = str ''credevamo''"
    using presente_imperfetto_forms [of "str ''cred''"] by (simp add: str_def)
  have i: "str ''credevamo'' \<in> set (get_regular_imperfetto (str ''cred'') (str ''ERE''))"
    using presente_imperfetto_forms [of "str ''cred''"] by (simp add: str_def)
  from presente_imperfetto_forms [of "str ''cred''"] m i e show ?thesis
    by blast
qed

text \<open>
  Whatever the infinitive, the futuro has six forms, built on the stem the source
  computes: the infinitive without \<open>are\<close> plus \<open>er\<close>, or else the infinitive without
  its last character. The first and third ending are the two-symbol literals of the
  source file.
\<close>

lemma futuro_length: "length (get_regular_futuro infinitive) = 6"
  by (simp add: get_regular_futuro_def Let_def)

lemma futuro_stem_are:
  "get_regular_futuro (r @ str ''are'')
     = map (\<lambda>ending. r @ str ''er'' @ ending)
         [lit_o_grave, str ''ai'', lit_a_grave, str ''emo'', str ''ete'', str ''anno'']"
  by (simp add: get_regular_futuro_def endswith_def butlast_n_def str_def)

lemma futuro_stem_other:
  "\<not> endswith infinitive (str ''are'') \<Longrightarrow>
   get_regular_futuro infinitive
     = map (\<lambda>ending. butlast_n 1 infinitive @ ending)
         [lit_o_grave, str ''ai'', lit_a_grave, str ''emo'', str ''ete'', str ''anno'']"
  by (simp add: get_regular_futuro_def Let_def)

text \<open>
  C3. The futuro of \<open>parlare\<close> as the source computes it: the first form ends in the
  two code points U+221A U+2264 and the third in U+221A U+2020, where the accented
  letters U+00F2 and U+00E0 were meant. The result is not the list
  \<open>parlero, parlerai, parlera, ...\<close> with accented \<open>o\<close> and \<open>a\<close>.
\<close>

theorem futuro_parlare_evaluated:
  "get_regular_futuro (str ''parlare'')
     = [str ''parler'' @ [0x221A, 0x2264], str ''parlerai'', str ''parler'' @ [0x221A, 0x2020],
        str ''parleremo'', str ''parlerete'', str ''parleranno'']
   \<and> get_regular_futuro (str ''parlare'')
     \<noteq> [str ''parler'' @ [0xF2], str ''parlerai'', str ''parler'' @ [0xE0],
        str ''parleremo'', str ''parlerete'', str ''parleranno'']"
  by (simp add: get_regular_futuro_def endswith_def butlast_n_def str_def lit_defs)

text \<open>
  C5. The third form of the passato remoto as the source computes it, for one verb of
  each group: it ends in U+221A followed by U+2264, U+00A9 or U+00A8, and not in the
  accented letter U+00F2, U+00E9 or U+00EC.
\<close>

theorem passato_remoto_evaluated:
  "get_regular_passato_remoto (str ''parl'') (str ''ARE'') ! 2 = str ''parl'' @ [0x221A, 0x2264]
   \<and> get_regular_passato_remoto (str ''parl'') (str ''ARE'') ! 2 \<noteq> str ''parl'' @ [0xF2]
   \<and> get_regular_passato_remoto (str ''cred'') (str ''ERE'') ! 2 = str ''cred'' @ [0x221A, 0xA9]
   \<and> get_regular_passato_remoto (str ''cred'') (str ''ERE'') ! 2 \<noteq> str ''cred'' @ [0xE9]
   \<and> get_regular_passato_remoto (str ''dorm'') (str ''IRE'') ! 2 = str ''dorm'' @ [0x221A, 0xA8]
   \<and> get_regular_passato_remoto (str ''dorm'') (str ''IRE'') ! 2 \<noteq> str ''dorm'' @ [0xEC]"
  by (simp add: get_regular_passato_remoto_def str_def lit_defs)

lemma other_group_empty:
  "get_regular_presente root (str ''OTHER'') = []"
  "get_regular_imperfetto root (str ''OTHER'') = []"
  "get_regular_passato_remoto root (str ''OTHER'') = []"
  by (simp_all add: get_regular_presente_def get_regular_imperfetto_def
        get_regular_passato_remoto_def str_def)

section \<open>Normalizer\<close>

text \<open>
  C7. The normalizer lower-cases \<open>PARL\<close> followed by U+00D2 to \<open>parl\<close> followed by
  U+00F2 and leaves the accent in place, because its table holds the two-symbol
  literals and not the accented letters. The result differs from the normal form of
  \<open>parlo\<close>, and the letter U+00E0 alone is not mapped to \<open>a\<close>.
\<close>

theorem normalize_accent_evaluated:
  "normalize_conjugation (str ''PARL'' @ [0xD2]) = str ''parl'' @ [0xF2]
   \<and> normalize_conjugation (str ''parlo'') = str ''parlo''
   \<and> normalize_conjugation (str ''PARL'' @ [0xD2]) \<noteq> normalize_conjugation (str ''parlo'')
   \<and> normalize_conjugation [0xE0] \<noteq> str ''a''"
  by (simp add: normalize_defs str_def)

subsection \<open>replace\<close>

lemma startswith_Nil [simp]: "startswith s [] = True"
  by (simp add: startswith_def)

lemma startswith_Nil_Cons [simp]: "startswith [] (p # ps) = False"
  by (simp add: startswith_def)

lemma startswith_Cons_Cons [simp]: "startswith (c # cs) (p # ps) = (c = p \<and> startswith cs ps)"
  by (simp add: startswith_def)

lemma replace_pair_Nil [simp]: "replace [a, b] new [] = []"
  by simp

lemma replace_pair_Cons:
  "replace [a, b] new (c # cs) =
     (if c = a \<and> (\<exists>cs'. cs = b # cs') then new @ replace [a, b] new (tl cs)
      else c # replace [a, b] new cs)"
  by (cases cs) auto

declare replace.simps [simp del]

lemma replace_absent: "\<not> occurs old s \<Longrightarrow> replace old new s = s"
proof (induction s)
  case Nil
  then show ?case by (simp add: replace.simps)
next
  case (Cons c cs)
  then have "old \<noteq> []" by auto
  with Cons show ?case by (simp add: replace.simps)
qed

lemma set_replace: "set (replace old new s) \<subseteq> set s \<union> set new"
proof (induction old new s rule: replace.induct)
  case (1 old new)
  then show ?case by (auto simp: replace.simps)
next
  case (2 old new c cs)
  have "set (drop (length old) (c # cs)) \<subseteq> set (c # cs)"
    by (rule set_drop_subset)
  with 2 show ?case
    by (auto simp: replace.simps(2) simp del: drop_Cons' split: if_splits)
qed

lemma hd_replace_pair:
  "replace [a, b] [v] s = h # t \<Longrightarrow> h = v \<or> (\<exists>t'. s = h # t')"
  by (cases s) (auto simp: replace_pair_Cons split: if_splits)

lemma replace_pair_eq_Nil: "replace [a, b] [v] s = [] \<longleftrightarrow> s = []"
  by (cases s) (auto simp: replace_pair_Cons)

lemma last_replace_pair:
  "s \<noteq> [] \<Longrightarrow> last (replace [a, b] [v] s) = v \<or> last (replace [a, b] [v] s) = last s"
proof (induction s rule: length_induct)
  case (1 s)
  then obtain c cs where s: "s = c # cs" by (cases s) auto
  show ?case
  proof (cases "c = a \<and> (\<exists>cs'. cs = b # cs')")
    case True
    then obtain cs' where cs: "cs = b # cs'" by auto
    show ?thesis
    proof (cases "cs' = []")
      case True
      with s cs \<open>c = a \<and> _\<close> show ?thesis by (simp add: replace_pair_Cons)
    next
      case False
      moreover have "length cs' < length s" using s cs by simp
      ultimately have "last (replace [a, b] [v] cs') = v \<or> last (replace [a, b] [v] cs') = last cs'"
        using 1 by blast
      with False s cs True show ?thesis
        by (auto simp: replace_pair_Cons replace_pair_eq_Nil)
    qed
  next
    case False
    show ?thesis
    proof (cases "cs = []")
      case True
      with s show ?thesis by (simp add: replace_pair_Cons)
    next
      case nonempty: False
      moreover have "length cs < length s" using s by simp
      ultimately have "last (replace [a, b] [v] cs) = v \<or> last (replace [a, b] [v] cs) = last cs"
        using 1 by blast
      with False nonempty s show ?thesis
        by (auto simp: replace_pair_Cons replace_pair_eq_Nil)
    qed
  qed
qed

lemma occurs_pair_Cons:
  "occurs [a, b] (c # cs) = ((c = a \<and> (\<exists>cs'. cs = b # cs')) \<or> occurs [a, b] cs)"
  by (cases cs) auto

lemma occurs_after_replace:
  assumes "a \<noteq> b" "v \<noteq> a" "v \<noteq> b'"
  shows "occurs [a, b'] (replace [a, b] [v] s) \<Longrightarrow> b' \<noteq> b \<and> occurs [a, b'] s"
proof (induction s rule: length_induct)
  case (1 s)
  show ?case
  proof (cases s)
    case Nil
    with 1 show ?thesis by simp
  next
    case (Cons c cs)
    show ?thesis
    proof (cases "c = a \<and> (\<exists>cs'. cs = b # cs')")
      case True
      then obtain cs' where cs: "cs = b # cs'" by auto
      from 1(2) Cons cs True assms have "occurs [a, b'] (replace [a, b] [v] cs')"
        by (simp add: replace_pair_Cons occurs_pair_Cons)
      moreover have "length cs' < length s" using Cons cs by simp
      ultimately have "b' \<noteq> b \<and> occurs [a, b'] cs'" using 1(1) by blast
      with Cons cs show ?thesis by (simp add: occurs_pair_Cons)
    next
      case False
      with 1(2) Cons have o: "occurs [a, b'] (c # replace [a, b] [v] cs)"
        by (simp add: replace_pair_Cons)
      show ?thesis
      proof (cases "occurs [a, b'] (replace [a, b] [v] cs)")
        case True
        moreover have "length cs < length s" using Cons by simp
        ultimately have "b' \<noteq> b \<and> occurs [a, b'] cs" using 1(1) by blast
        with Cons show ?thesis by (simp add: occurs_pair_Cons)
      next
        case no: False
        with o have c: "c = a" and "startswith (replace [a, b] [v] cs) [b']"
          by simp_all
        then obtain t where r: "replace [a, b] [v] cs = b' # t"
          by (cases "replace [a, b] [v] cs") auto
        from hd_replace_pair [OF r] assms obtain t' where "cs = b' # t'" by auto
        with c False Cons show ?thesis by (auto simp: occurs_pair_Cons)
      qed
    qed
  qed
qed


subsection \<open>strip\<close>

lemma trimmed_strip: "trimmed (strip s)"
proof (cases "dropWhile is_space s = []")
  case True
  show ?thesis unfolding trimmed_def strip_def lstrip_def rstrip_def True by simp
next
  case False
  then obtain h t where ht: "dropWhile is_space s = h # t" by (cases "dropWhile is_space s") auto
  with hd_dropWhile [of is_space s] have h: "\<not> is_space h" by simp
  define w where "w = dropWhile is_space (rev t @ [h])"
  have w_ne: "w \<noteq> []" using h by (simp add: w_def dropWhile_append)
  have "\<exists>u. w = u @ [h]"
    using h by (simp add: w_def dropWhile_append)
  then obtain u where u: "w = u @ [h]" by auto
  have "\<not> is_space (hd w)"
    using w_ne unfolding w_def by (rule hd_dropWhile)
  then have l: "\<not> is_space (last (rev w))"
    by (simp add: last_rev)
  have "strip s = rev w"
    by (simp add: strip_def lstrip_def rstrip_def ht w_def)
  with u h l show ?thesis
    by (simp add: trimmed_def)
qed

lemma strip_trimmed: "trimmed s \<Longrightarrow> strip s = s"
proof (cases s)
  case Nil
  then show ?thesis by (simp add: strip_def lstrip_def rstrip_def)
next
  case (Cons c cs)
  assume "trimmed s"
  with Cons have c: "\<not> is_space c" and l: "\<not> is_space (last s)" by (simp_all add: trimmed_def)
  from Cons have "rev s \<noteq> []" by simp
  then obtain d ds where d: "rev s = d # ds" by (cases "rev s") auto
  then have "last s = d" by (metis last_rev list.sel(1) rev_rev_ident)
  with l d have "dropWhile is_space (rev s) = rev s" by simp
  with c Cons show ?thesis by (simp add: strip_def lstrip_def rstrip_def)
qed

lemma trimmed_replace_pair:
  "trimmed s \<Longrightarrow> \<not> is_space v \<Longrightarrow> trimmed (replace [a, b] [v] s)"
proof (cases s)
  case Nil
  then show ?thesis by (simp add: trimmed_def)
next
  case (Cons c cs)
  assume t: "trimmed s" and v: "\<not> is_space v"
  from Cons obtain h r where r: "replace [a, b] [v] s = h # r"
    by (cases "replace [a, b] [v] s") (auto simp: replace_pair_eq_Nil)
  from hd_replace_pair [OF r] v t Cons have "\<not> is_space h" by (auto simp: trimmed_def)
  moreover from last_replace_pair [of s a b v] v t Cons
  have "\<not> is_space (last (replace [a, b] [v] s))" by (auto simp: trimmed_def)
  ultimately show ?thesis by (simp add: trimmed_def r)
qed


subsection \<open>The table of replacements\<close>

lemma replacements_pairs:
  "replacements = map (\<lambda>(b, v). ([0x221A, b], [v]))
     [(0x2020, 97), (0xAE, 101), (0xA9, 101), (0xA8, 105), (0x2264, 111), (0x3C0, 117)]"
  by (simp add: replacements_def lit_defs str_def)

lemma occurs_after_table:
  assumes "\<forall>(b, v) \<in> set tab. a \<noteq> b \<and> v \<noteq> a"
    and "\<forall>(b, v) \<in> set tab. \<forall>(b', v') \<in> set tab. v \<noteq> b'"
  shows "\<forall>(b', v') \<in> set tab.
    \<not> occurs [a, b'] (foldl (\<lambda>result (old, new). replace old new result) x
                        (map (\<lambda>(b, v). ([a, b], [v])) tab))"
  using assms
proof (induction tab rule: rev_induct)
  case Nil
  then show ?case by simp
next
  case (snoc p tab)
  obtain b v where p: "p = (b, v)" by (cases p)
  define y where "y = foldl (\<lambda>result (old, new). replace old new result) x
                        (map (\<lambda>(b, v). ([a, b], [v])) tab)"
  have ih: "\<forall>(b', v') \<in> set tab. \<not> occurs [a, b'] y"
    unfolding y_def using snoc by (intro snoc.IH) auto
  have side: "a \<noteq> b" "v \<noteq> a" using snoc.prems(1) p by auto
  show ?case
  proof (clarify)
    fix b' v'
    assume mem: "(b', v') \<in> set (tab @ [p])"
      and occ: "occurs [a, b'] (foldl (\<lambda>result (old, new). replace old new result) x
                        (map (\<lambda>(b, v). ([a, b], [v])) (tab @ [p])))"
    from occ have occ': "occurs [a, b'] (replace [a, b] [v] y)"
      by (simp add: p y_def)
    have "v \<noteq> b'" using snoc.prems(2) mem p by auto
    from occurs_after_replace [OF side this occ'] have "b' \<noteq> b" "occurs [a, b'] y" by simp_all
    with mem p have "(b', v') \<in> set tab" by auto
    with ih \<open>occurs [a, b'] y\<close> show False by auto
  qed
qed

lemma table_absent:
  "\<forall>(b, v) \<in> set tab. \<not> occurs [a, b] x \<Longrightarrow>
   foldl (\<lambda>result (old, new). replace old new result) x (map (\<lambda>(b, v). ([a, b], [v])) tab) = x"
  by (induction tab) (auto simp: replace_absent)

lemma set_table:
  "set (foldl (\<lambda>result (old, new). replace old new result) x (map (\<lambda>(b, v). ([a, b], [v])) tab))
     \<subseteq> set x \<union> snd ` set tab"
proof (induction tab rule: rev_induct)
  case Nil
  then show ?case by simp
next
  case (snoc p tab)
  obtain b v where p: "p = (b, v)" by (cases p)
  from set_replace [of "[a, b]" "[v]"] snoc show ?case
    by (fastforce simp: p)
qed

lemma trimmed_table:
  "trimmed x \<Longrightarrow> \<forall>(b, v) \<in> set tab. \<not> is_space v \<Longrightarrow>
   trimmed (foldl (\<lambda>result (old, new). replace old new result) x
              (map (\<lambda>(b, v). ([a, b], [v])) tab))"
proof (induction tab rule: rev_induct)
  case Nil
  then show ?case by simp
next
  case (snoc p tab)
  obtain b v where p: "p = (b, v)" by (cases p)
  from snoc show ?case by (simp add: p trimmed_replace_pair)
qed

subsection \<open>lower\<close>

lemma lower_cp_idem: "lower_cp (lower_cp c) = lower_cp c"
  by (simp add: lower_cp_def)

lemma lower_fixed: "\<forall>c \<in> set s. lower_cp c = c \<Longrightarrow> lower s = s"
  by (simp add: lower_def map_idI)

lemma set_strip: "set (strip s) \<subseteq> set s"
proof -
  have "set (strip s) = set (dropWhile is_space (rev (dropWhile is_space s)))"
    by (simp add: strip_def lstrip_def rstrip_def)
  also have "\<dots> \<subseteq> set (rev (dropWhile is_space s))"
    by (auto dest: set_dropWhileD)
  also have "\<dots> \<subseteq> set s"
    by (auto dest: set_dropWhileD)
  finally show ?thesis .
qed

subsection \<open>Idempotence\<close>

lemma normalize_conjugation_with: "normalize_conjugation s = normalize_with lower s"
  by (simp add: normalize_conjugation_def normalize_with_def)

text \<open>
  C8. Normalization is idempotent: for every string \<open>s\<close>, the normal form of the
  normal form of \<open>s\<close> is the normal form of \<open>s\<close>. The case conversion is the
  parameter \<open>lw\<close>, since \<open>str.lower\<close> comes from the Unicode tables of the
  interpreter and not from the source. Nothing is asked of its shape: it may turn one
  code point into several and may look at the neighbours of a code point. What is
  asked is that there is a set \<open>L\<close> of code points such that every result of \<open>lw\<close> is
  a string over \<open>L\<close>, that \<open>lw\<close> leaves every string over \<open>L\<close> as it is, and that the
  five vowels written by the table are in \<open>L\<close>. After the first pass the string is
  made of code points of \<open>L\<close>, it is trimmed, and none of the six patterns of the table
  occurs in it any more.
\<close>

theorem normalize_with_idempotent:
  assumes out: "\<And>x. set (lw x) \<subseteq> L"
    and fixed: "\<And>x. set x \<subseteq> L \<Longrightarrow> lw x = x"
    and vowels: "{97, 101, 105, 111, 117} \<subseteq> L"
  shows "normalize_with lw (normalize_with lw s) = normalize_with lw s"
proof -
  define tab :: "(nat \<times> nat) list" where
    "tab = [(0x2020, 97), (0xAE, 101), (0xA9, 101), (0xA8, 105), (0x2264, 111), (0x3C0, 117)]"
  define r where "r = normalize_with lw s"
  have norm: "\<And>x. normalize_with lw x
      = foldl (\<lambda>result (old, new). replace old new result) (strip (lw x))
          (map (\<lambda>(b, v). ([0x221A, b], [v])) tab)"
    by (simp only: normalize_with_def replacements_pairs tab_def)
  have "set r \<subseteq> set (strip (lw s)) \<union> snd ` set tab"
    unfolding r_def norm by (rule set_table)
  also have "\<dots> \<subseteq> L \<union> snd ` set tab"
    using set_strip [of "lw s"] out [of s] by auto
  also have "\<dots> \<subseteq> L"
    using vowels by (auto simp: tab_def)
  finally have low: "lw r = r" by (rule fixed)
  have "trimmed r"
    unfolding r_def norm
    by (rule trimmed_table [OF trimmed_strip]) (simp add: tab_def is_space_def)
  then have str: "strip r = r" by (rule strip_trimmed)
  have "\<forall>(b', v') \<in> set tab. \<not> occurs [0x221A, b'] r"
    unfolding r_def norm by (rule occurs_after_table) (simp_all add: tab_def)
  then have "foldl (\<lambda>result (old, new). replace old new result) r
          (map (\<lambda>(b, v). ([0x221A, b], [v])) tab) = r"
    by (rule table_absent)
  then have "normalize_with lw r = r"
    by (simp add: norm low str)
  then show ?thesis by (simp add: r_def)
qed

text \<open>
  The case conversion \<open>lower\<close> of this theory meets the three conditions, with the
  code points that \<open>lower_cp\<close> leaves alone as \<open>L\<close>; so \<open>normalize_conjugation\<close> is
  idempotent on every string.
\<close>

theorem normalize_idempotent:
  "(\<forall>s. normalize_conjugation (normalize_conjugation s) = normalize_conjugation s)
   \<and> normalize_conjugation (str '' Parl'' @ lit_o_grave @ str '' '') = str ''parlo''"
proof
  have out: "set (lower x) \<subseteq> {c. lower_cp c = c}" for x
    by (auto simp: lower_def lower_cp_idem)
  have fixed: "lower x = x" if "set x \<subseteq> {c. lower_cp c = c}" for x
    using that by (intro lower_fixed) auto
  have vowels: "{97, 101, 105, 111, 117} \<subseteq> {c. lower_cp c = c}"
    by (simp add: lower_cp_def)
  show "\<forall>s. normalize_conjugation (normalize_conjugation s) = normalize_conjugation s"
    using normalize_with_idempotent [of lower "{c. lower_cp c = c}", OF out fixed vowels]
    by (simp add: normalize_conjugation_with)
  show "normalize_conjugation (str '' Parl'' @ lit_o_grave @ str '' '') = str ''parlo''"
    by (simp add: normalize_defs str_def replace.simps)
qed

section \<open>Mismatch reporter\<close>

lemma count_mismatches_in_range:
  "\<forall>i \<in> set is. i < length acts \<and> i < length regular \<Longrightarrow>
   count_mismatches acts regular is
     = Inr (int (length (filter (\<lambda>i. normalize_conjugation (acts ! i)
                                      \<noteq> normalize_conjugation (regular ! i)) is)))"
  by (induction "is") (simp_all add: getitem_list_def)

lemma count_mismatches_six:
  "6 \<le> length acts \<Longrightarrow> length regular = 6 \<Longrightarrow>
   count_mismatches acts regular [0..<6] = Inr (int (length (differing acts regular)))"
  unfolding differing_def by (rule count_mismatches_in_range) auto

lemma check_tense_eq:
  "check_tense tense regular obs irr
     = Inr (case tense_entry regular obs tense of None \<Rightarrow> irr | Some e \<Rightarrow> irr(tense \<mapsto> e))"
proof (cases "obs tense")
  case None
  then show ?thesis by (simp add: check_tense_def tense_entry_def)
next
  case (Some acts)
  show ?thesis
  proof (cases "6 \<le> length acts \<and> length regular = 6")
    case True
    then have "count_mismatches acts regular [0..<6] = Inr (int (length (differing acts regular)))"
      by (simp add: count_mismatches_six)
    with Some True show ?thesis
      by (simp add: check_tense_def tense_entry_def getitem_dict_def)
  next
    case False
    with Some show ?thesis
      by (auto simp add: check_tense_def tense_entry_def getitem_dict_def)
  qed
qed

lemma tense_names_distinct: "distinct tenses"
  by (simp add: tenses_def str_def)

lemma compare_with_regular_eq:
  "compare_with_regular infinitive obs
     = Inr (\<lambda>tense. if tense \<in> set tenses
                     then tense_entry (canonical infinitive tense) obs tense else None)"
proof -
  have d: "str ''presente'' \<noteq> str ''imperfetto''" "str ''presente'' \<noteq> str ''futuro''"
    "str ''presente'' \<noteq> str ''passato_remoto''" "str ''imperfetto'' \<noteq> str ''futuro''"
    "str ''imperfetto'' \<noteq> str ''passato_remoto''" "str ''futuro'' \<noteq> str ''passato_remoto''"
    using tense_names_distinct by (auto simp: tenses_def)
  obtain root grp where rg: "get_verb_root infinitive = (root, grp)"
    by (cases "get_verb_root infinitive")
  show ?thesis
    unfolding compare_with_regular_def rg check_tense_eq
    using d
    by (auto simp: canonical_def rg tenses_def fun_eq_iff split: option.splits)
qed

lemma differing_nonempty_iff:
  "differing acts regular \<noteq> []
     \<longleftrightarrow> (\<exists>i<6. normalize_conjugation (acts ! i) \<noteq> normalize_conjugation (regular ! i))"
  by (auto simp: differing_def filter_empty_conv)

lemma differing_bounds: "length (differing acts regular) \<le> 6"
  unfolding differing_def by (rule order_trans [OF length_filter_le]) simp

lemma differing_take:
  "6 \<le> length acts \<Longrightarrow> differing (take 6 acts @ rest) regular = differing acts regular"
  unfolding differing_def by (rule filter_cong) (auto simp: nth_append)

lemma compare_with_regular_total:
  "\<exists>report. compare_with_regular infinitive obs = Inr report"
  by (simp add: compare_with_regular_eq)

lemma compare_presente_only:
  assumes "6 \<le> length acts"
    and "canonical infinitive (str ''presente'') = regular"
    and "length regular = 6"
    and "differing acts regular \<noteq> []"
  shows "compare_with_regular infinitive [str ''presente'' \<mapsto> acts]
    = Inr [str ''presente'' \<mapsto>
        \<lparr>mismatches = int (length (differing acts regular)), actual = acts, expected = regular\<rparr>]"
  using assms
  by (auto simp: compare_with_regular_eq tense_entry_def tenses_def fun_eq_iff)

subsection \<open>The verb andare\<close>

lemma andare_root: "get_verb_root (str ''andare'') = (str ''and'', str ''ARE'')"
  by (simp add: get_verb_root_def endswith_def butlast_n_def str_def)

lemma andare_canonical: "canonical (str ''andare'') (str ''presente'') = andare_regular"
  by (simp add: canonical_def andare_root get_regular_presente_def andare_regular_def)
    (simp add: str_def)

lemma andare_differing: "differing andare_observed andare_regular = [0, 1, 2, 5]"
proof -
  have norm: "normalize_conjugation (str ''vado'') = str ''vado''"
    "normalize_conjugation (str ''vai'') = str ''vai''"
    "normalize_conjugation (str ''va'') = str ''va''"
    "normalize_conjugation (str ''vanno'') = str ''vanno''"
    "normalize_conjugation (str ''ando'') = str ''ando''"
    "normalize_conjugation (str ''andi'') = str ''andi''"
    "normalize_conjugation (str ''anda'') = str ''anda''"
    "normalize_conjugation (str ''andiamo'') = str ''andiamo''"
    "normalize_conjugation (str ''andate'') = str ''andate''"
    "normalize_conjugation (str ''andano'') = str ''andano''"
    by (simp_all add: normalize_defs str_def replace.simps)
  show ?thesis
    by (simp add: differing_def upt_rec norm andare_observed_def andare_regular_def)
      (simp add: str_def)
qed

subsection \<open>Which tenses are reported\<close>

text \<open>
  C1. The analysis returns a report, and a name is a key of the report exactly when it
  is one of the four tenses, the tense is observed with at least six forms, six
  canonical forms were generated for it, and the normal forms differ at one of the
  positions 0 to 5. So a tense that is observed with fewer than six forms, one with no
  canonical pattern and one with no mismatch are left out, and none of them is an
  error.
\<close>

theorem report_membership:
  "\<exists>report. compare_with_regular infinitive obs = Inr report
     \<and> (\<forall>tense. tense \<in> dom report \<longleftrightarrow>
           tense \<in> {str ''presente'', str ''imperfetto'', str ''futuro'', str ''passato_remoto''}
           \<and> (\<exists>acts. obs tense = Some acts \<and> 6 \<le> length acts
                 \<and> length (canonical infinitive tense) = 6
                 \<and> (\<exists>i<6. normalize_conjugation (acts ! i)
                              \<noteq> normalize_conjugation (canonical infinitive tense ! i))))"
  unfolding compare_with_regular_eq
  by (auto simp: dom_def tense_entry_def tenses_def differing_nonempty_iff
           split: option.splits if_splits)

theorem report_membership_witness:
  "\<exists>report. compare_with_regular (str ''andare'')
       [str ''presente'' \<mapsto> andare_observed, str ''imperfetto'' \<mapsto> take 3 andare_observed]
     = Inr report
     \<and> str ''presente'' \<in> dom report \<and> str ''imperfetto'' \<notin> dom report
     \<and> str ''futuro'' \<notin> dom report"
proof -
  let ?obs = "[str ''presente'' \<mapsto> andare_observed, str ''imperfetto'' \<mapsto> take 3 andare_observed]"
  from report_membership [of "str ''andare''" ?obs] obtain report
    where r: "compare_with_regular (str ''andare'') ?obs = Inr report"
      and m: "\<And>tense. tense \<in> dom report \<longleftrightarrow>
           tense \<in> {str ''presente'', str ''imperfetto'', str ''futuro'', str ''passato_remoto''}
           \<and> (\<exists>acts. ?obs tense = Some acts \<and> 6 \<le> length acts
                 \<and> length (canonical (str ''andare'') tense) = 6
                 \<and> (\<exists>i<6. normalize_conjugation (acts ! i)
                              \<noteq> normalize_conjugation (canonical (str ''andare'') tense ! i)))"
    by blast
  have keys: "str ''presente'' \<noteq> str ''imperfetto''" "str ''futuro'' \<noteq> str ''imperfetto''"
    "str ''futuro'' \<noteq> str ''presente''"
    by (simp_all add: str_def)
  have "\<exists>i<6. normalize_conjugation (andare_observed ! i)
                 \<noteq> normalize_conjugation (andare_regular ! i)"
    using andare_differing by (simp add: differing_nonempty_iff [symmetric])
  then have "str ''presente'' \<in> dom report"
    by (simp add: m keys andare_canonical) (simp add: andare_observed_def andare_regular_def)
  moreover have "str ''imperfetto'' \<notin> dom report"
    by (simp add: m keys andare_observed_def)
  moreover have "str ''futuro'' \<notin> dom report"
    by (simp add: m keys)
  ultimately show ?thesis using r by blast
qed

subsection \<open>What a report entry holds\<close>

text \<open>
  C2. An entry of the report holds the whole observed sequence of its tense, which has
  at least six forms, and the six canonical forms. Its count is the number of positions
  among 0 to 5 at which the normal forms differ, a number from 1 to 6. Whatever follows
  the sixth observed form has no part in the count.
\<close>

theorem report_entry:
  "compare_with_regular infinitive obs = Inr report \<Longrightarrow> report tense = Some e \<Longrightarrow>
     obs tense = Some (actual e)
     \<and> expected e = canonical infinitive tense
     \<and> 6 \<le> length (actual e) \<and> length (expected e) = 6
     \<and> mismatches e = int (length (differing (actual e) (expected e)))
     \<and> 1 \<le> mismatches e \<and> mismatches e \<le> 6
     \<and> (\<forall>rest. differing (take 6 (actual e) @ rest) (expected e)
                  = differing (actual e) (expected e))"
proof -
  assume "compare_with_regular infinitive obs = Inr report" and e: "report tense = Some e"
  then have "report = (\<lambda>tense. if tense \<in> set tenses
                     then tense_entry (canonical infinitive tense) obs tense else None)"
    by (simp add: compare_with_regular_eq)
  with e have te: "tense_entry (canonical infinitive tense) obs tense = Some e"
    by (simp split: if_splits)
  then obtain acts where acts: "obs tense = Some acts" "6 \<le> length acts"
    "length (canonical infinitive tense) = 6" "differing acts (canonical infinitive tense) \<noteq> []"
    "e = \<lparr>mismatches = int (length (differing acts (canonical infinitive tense))),
          actual = acts, expected = canonical infinitive tense\<rparr>"
    by (auto simp: tense_entry_def split: option.splits if_splits)
  have "1 \<le> length (differing acts (canonical infinitive tense))"
    using acts(4) by (cases "differing acts (canonical infinitive tense)") simp_all
  moreover have "length (differing acts (canonical infinitive tense)) \<le> 6"
    by (rule differing_bounds)
  ultimately show ?thesis
    using acts by (simp add: differing_take)
qed

theorem report_entry_witness:
  "compare_with_regular (str ''andare'') [str ''presente'' \<mapsto> andare_observed @ [str ''x'']]
     = Inr [str ''presente'' \<mapsto>
         \<lparr>mismatches = 4, actual = andare_observed @ [str ''x''], expected = andare_regular\<rparr>]
   \<and> length (andare_observed @ [str ''x'']) = 7
   \<and> (4::int) = int (length (differing (andare_observed @ [str ''x'']) andare_regular))"
proof -
  let ?acts = "andare_observed @ [str ''x'']"
  let ?e = "\<lparr>mismatches = 4, actual = ?acts, expected = andare_regular\<rparr>"
  have six: "6 \<le> length andare_observed" "take 6 andare_observed = andare_observed"
    by (simp_all add: andare_observed_def)
  have d: "differing ?acts andare_regular = [0, 1, 2, 5]"
    using differing_take [OF six(1), of "[str ''x'']" andare_regular]
    by (simp add: six andare_differing)
  have h1: "compare_with_regular (str ''andare'') [str ''presente'' \<mapsto> ?acts]
      = Inr [str ''presente'' \<mapsto> ?e]"
    using compare_presente_only [of ?acts "str ''andare''" andare_regular]
    by (simp add: d andare_canonical) (simp add: andare_observed_def andare_regular_def)
  have h2: "[str ''presente'' \<mapsto> ?e] (str ''presente'') = Some ?e"
    by simp
  from report_entry [OF h1 h2] h1 show ?thesis
    by (simp add: andare_observed_def)
qed

subsection \<open>The scenario of andare\<close>

text \<open>
  C9. For \<open>andare\<close> the canonical presente is \<open>ando, andi, anda, andiamo, andate,
  andano\<close>. Against the observed \<open>vado, vai, va, andiamo, andate, vanno\<close> the normal
  forms differ at the positions 0, 1, 2 and 5 and agree at 3 and 4, and the report is
  the single entry for presente with the count 4.
\<close>

theorem andare_presente:
  "get_regular_presente (fst (get_verb_root (str ''andare''))) (snd (get_verb_root (str ''andare'')))
     = map str [''ando'', ''andi'', ''anda'', ''andiamo'', ''andate'', ''andano'']
   \<and> differing (map str [''vado'', ''vai'', ''va'', ''andiamo'', ''andate'', ''vanno''])
         (map str [''ando'', ''andi'', ''anda'', ''andiamo'', ''andate'', ''andano''])
       = [0, 1, 2, 5]
   \<and> compare_with_regular (str ''andare'')
         [str ''presente'' \<mapsto> map str [''vado'', ''vai'', ''va'', ''andiamo'', ''andate'', ''vanno'']]
       = Inr [str ''presente'' \<mapsto>
               \<lparr>mismatches = 4,
                actual = map str [''vado'', ''vai'', ''va'', ''andiamo'', ''andate'', ''vanno''],
                expected = map str [''ando'', ''andi'', ''anda'', ''andiamo'', ''andate'', ''andano'']\<rparr>]"
proof (intro conjI)
  show "get_regular_presente (fst (get_verb_root (str ''andare''))) (snd (get_verb_root (str ''andare'')))
     = map str [''ando'', ''andi'', ''anda'', ''andiamo'', ''andate'', ''andano'']"
    using andare_canonical by (simp add: canonical_def andare_regular_def)
  show "differing (map str [''vado'', ''vai'', ''va'', ''andiamo'', ''andate'', ''vanno''])
         (map str [''ando'', ''andi'', ''anda'', ''andiamo'', ''andate'', ''andano''])
       = [0, 1, 2, 5]"
    using andare_differing by (simp add: andare_observed_def andare_regular_def)
  show "compare_with_regular (str ''andare'')
         [str ''presente'' \<mapsto> map str [''vado'', ''vai'', ''va'', ''andiamo'', ''andate'', ''vanno'']]
       = Inr [str ''presente'' \<mapsto>
               \<lparr>mismatches = 4,
                actual = map str [''vado'', ''vai'', ''va'', ''andiamo'', ''andate'', ''vanno''],
                expected = map str [''ando'', ''andi'', ''anda'', ''andiamo'', ''andate'', ''andano'']\<rparr>]"
    using compare_presente_only [of andare_observed "str ''andare''" andare_regular]
    by (simp add: andare_differing andare_canonical)
      (simp add: andare_observed_def andare_regular_def)
qed

section \<open>Infinitives outside the three groups\<close>

text \<open>
  An infinitive that ends in none of \<open>are\<close>, \<open>ere\<close>, \<open>ire\<close>, the empty string among
  them, is its own root with group \<open>OTHER\<close>. The analysis then returns a report without
  presente, imperfetto and passato remoto, and the futuro is in the report exactly when
  it is observed with at least six forms that differ from the generated ones.
\<close>

lemma other_group_analysis:
  assumes "\<not> endswith infinitive (str ''are'')" "\<not> endswith infinitive (str ''ere'')"
    "\<not> endswith infinitive (str ''ire'')"
  shows "get_verb_root infinitive = (infinitive, str ''OTHER'')"
    and "\<exists>report. compare_with_regular infinitive obs = Inr report
           \<and> str ''presente'' \<notin> dom report \<and> str ''imperfetto'' \<notin> dom report
           \<and> str ''passato_remoto'' \<notin> dom report
           \<and> (str ''futuro'' \<in> dom report \<longleftrightarrow>
                (\<exists>acts. obs (str ''futuro'') = Some acts \<and> 6 \<le> length acts
                   \<and> differing acts (get_regular_futuro infinitive) \<noteq> []))"
proof -
  show root: "get_verb_root infinitive = (infinitive, str ''OTHER'')"
    using assms by (simp add: get_verb_root_def)
  have keys: "str ''futuro'' \<noteq> str ''presente''" "str ''futuro'' \<noteq> str ''imperfetto''"
    "str ''passato_remoto'' \<noteq> str ''futuro''"
    by (simp_all add: str_def)
  show "\<exists>report. compare_with_regular infinitive obs = Inr report
           \<and> str ''presente'' \<notin> dom report \<and> str ''imperfetto'' \<notin> dom report
           \<and> str ''passato_remoto'' \<notin> dom report
           \<and> (str ''futuro'' \<in> dom report \<longleftrightarrow>
                (\<exists>acts. obs (str ''futuro'') = Some acts \<and> 6 \<le> length acts
                   \<and> differing acts (get_regular_futuro infinitive) \<noteq> []))"
    by (auto simp: compare_with_regular_eq tense_entry_def tenses_def canonical_def root
          other_group_empty futuro_length keys dom_def split: option.splits)
qed

text \<open>
  C10. The futuro of the empty infinitive as the source computes it: the stem is empty
  and the six forms are the bare endings, of which the first is U+221A U+2264 and the
  third U+221A U+2020. They are not the accented letters U+00F2 and U+00E0.
\<close>

theorem futuro_empty_evaluated:
  "get_regular_futuro []
     = [[0x221A, 0x2264], str ''ai'', [0x221A, 0x2020], str ''emo'', str ''ete'', str ''anno'']
   \<and> get_regular_futuro [] \<noteq> [[0xF2], str ''ai'', [0xE0], str ''emo'', str ''ete'', str ''anno'']"
  by (simp add: get_regular_futuro_def endswith_def butlast_n_def str_def lit_defs)

end
